theory Spec2Isabelle
  imports Complex_Main "HOL-Library.Word" "HOL-Library.Monad_Syntax" "HOL-Library.Signed_Division"
begin

unbundle bit_operations_syntax

section \<open>Data model\<close>

text \<open>
  The library of \<^verbatim>\<open>src/hmsearch.cc\<close> indexes fixed-width hashes in a LevelDB store.
  Keys and values of the store are strings of bytes.
\<close>

type_synonym bytes = "8 word list"

text \<open>
  Modelled from the spec: the header \<^verbatim>\<open>hmsearch.h\<close>, which declares the type
  \<^verbatim>\<open>hash_string\<close>, is not among the sources. The spec has a hash as a byte string, and
  the code builds a \<^verbatim>\<open>hash_string\<close> from an array of \<^verbatim>\<open>uint8_t\<close> and a length: a list
  of bytes.
\<close>

type_synonym hash_string = "8 word list"

subsection \<open>The key-value store\<close>

text \<open>
  LevelDB is an external collaborator. It is modelled by what the code uses of it: a table
  from keys to values, \<^verbatim>\<open>Put\<close> replacing the value of a key, \<^verbatim>\<open>Get\<close> reading it, and a
  status for each call. A write can fail: \<open>write_fault\<close> says for which keys the medium
  refuses the write, so that the branch \<^verbatim>\<open>if (!status.ok())\<close> of the callers exists in
  the model.
\<close>

datatype status = OK | NotFound | InvalidArgument | IOError

record DB =
  table :: "bytes \<rightharpoonup> bytes"
  write_fault :: "bytes \<Rightarrow> bool"

definition Put :: "DB \<Rightarrow> bytes \<Rightarrow> bytes \<Rightarrow> status \<times> DB" where
  "Put d key val =
     (if write_fault d key then (IOError, d)
      else (OK, d\<lparr>table := (table d)(key \<mapsto> val)\<rparr>))"

definition Get :: "DB \<Rightarrow> bytes \<Rightarrow> status \<times> bytes" where
  "Get d key = (case table d key of None \<Rightarrow> (NotFound, []) | Some v \<Rightarrow> (OK, v))"

subsection \<open>Errors\<close>

text \<open>
  The operations return \<^verbatim>\<open>false\<close> and set a message. The error kinds are the messages:
  \<open>InvalidHashBits\<close> is "invalid hash_bits value", \<open>InvalidMaxError\<close> is
  "invalid max_error value", \<open>InvalidHashLength\<close> is "incorrect hash length", \<open>Closed\<close> is
  "database is closed", \<open>Storage st\<close> is the text of a store status that is not ok.
  \<open>Undefined\<close> is no return of the code: it marks the runs in which C++ gives the program
  no meaning (a shift by a negative count, a read beyond a buffer).
\<close>

datatype error =
  InvalidHashBits | InvalidMaxError | InvalidHashLength | Closed | Storage status | Undefined

subsection \<open>The index handle\<close>

text \<open>
  The C++ type \<^verbatim>\<open>int\<close> has 32 bits. \<open>int32\<close> is the value an integer has as an
  \<^verbatim>\<open>int\<close>: the value itself within the range, and its two's complement wrap-around
  outside, which is what a narrowing conversion and an overflowing addition give on the
  target. C++ integer division truncates towards zero: it is \<open>sdiv\<close>, and \<^verbatim>\<open>%\<close> is
  \<open>smod\<close>.
\<close>

definition int32 :: "int \<Rightarrow> int" where
  "int32 x = sint (word_of_int x :: 32 word)"

text \<open>
  \<^verbatim>\<open>ceil((double)a / b)\<close> converted to \<^verbatim>\<open>int\<close>. Both operands are exact as
  \<^verbatim>\<open>double\<close>, and the rounding of the quotient does not reach the next integer, so the
  ceiling is the one of the exact quotient. With \<open>b = 0\<close> the quotient is infinite or not
  a number, and the conversion, which C++ leaves open, gives the least \<^verbatim>\<open>int\<close> on the
  target; so does the one quotient beyond the range, \<open>2 ^ 31\<close>, which \<open>int32\<close> maps to
  the same value.
\<close>

definition ceil_quotient :: "int \<Rightarrow> int \<Rightarrow> int" where
  "ceil_quotient a b =
     (if b = 0 then - (2 ^ 31) else int32 \<lceil>real_of_int a / real_of_int b\<rceil>)"

text \<open>
  The fields of \<^verbatim>\<open>HmSearchImpl\<close>, all of type \<^verbatim>\<open>int\<close> but the store pointer. A closed
  handle has \<open>db = None\<close> (the null pointer). The constructor takes the two parameters as
  \<^verbatim>\<open>int\<close>, which narrows the \<^verbatim>\<open>unsigned long\<close> values \<^verbatim>\<open>open\<close> passes, and computes
  the derived fields in \<^verbatim>\<open>int\<close> arithmetic.
\<close>

record HmSearchImpl =
  db :: "DB option"
  hash_bits :: int
  max_error :: int
  hash_bytes :: int
  partitions :: int
  partition_bits :: int
  partition_bytes :: int

definition new_HmSearchImpl :: "DB option \<Rightarrow> int \<Rightarrow> int \<Rightarrow> HmSearchImpl" where
  "new_HmSearchImpl d hb me =
     (let hbits = int32 hb;
          merr = int32 me;
          parts = int32 (merr + 3) sdiv 2;
          pbits = ceil_quotient hbits parts
      in \<lparr> db = d, hash_bits = hbits, max_error = merr,
           hash_bytes = int32 (hbits + 7) sdiv 8,
           partitions = parts,
           partition_bits = pbits,
           partition_bytes = int32 (int32 (pbits + 7) sdiv 8 + 1) \<rparr>)"

section \<open>Creating an index\<close>

text \<open>\<^verbatim>\<open>snprintf(buf, sizeof(buf), "%u", n)\<close>: the decimal digits of \<open>n\<close> in ASCII.\<close>

fun decimal :: "nat \<Rightarrow> bytes" where
  "decimal n = (if n < 10 then [of_nat (48 + n)]
                else decimal (n div 10) @ [of_nat (48 + n mod 10)])"

declare decimal.simps [simp del]

definition key_hb :: bytes where
  "key_hb = [0x5F, 0x68, 0x62]"

definition key_me :: bytes where
  "key_me = [0x5F, 0x6D, 0x65]"

text \<open>
  \<^verbatim>\<open>HmSearch::init\<close>. The file system is a map from paths to stores. The store is opened
  with \<^verbatim>\<open>create_if_missing\<close> and \<^verbatim>\<open>error_if_exists\<close>; \<open>wfail\<close> is the write-fault predicate
  of the medium the new store lives on. A failed \<^verbatim>\<open>Put\<close> returns early and leaves the
  store that was created behind.
\<close>

type_synonym filesystem = "string \<rightharpoonup> DB"

definition init ::
  "filesystem \<Rightarrow> (bytes \<Rightarrow> bool) \<Rightarrow> string \<Rightarrow> 32 word \<Rightarrow> 32 word \<Rightarrow> error option \<times> filesystem" where
  "init fs wfail path hb me =
     (if hb = 0 \<or> hb AND 7 \<noteq> 0 then (Some InvalidHashBits, fs)
      else if me = 0 \<or> me \<ge> hb \<or> me > 518 then (Some InvalidMaxError, fs)
      else (case fs path of
              Some _ \<Rightarrow> (Some (Storage InvalidArgument), fs)
            | None \<Rightarrow>
               (case Put \<lparr>table = Map.empty, write_fault = wfail\<rparr> key_hb (decimal (unat hb)) of
                  (OK, d1) \<Rightarrow>
                    (case Put d1 key_me (decimal (unat me)) of
                       (OK, d2) \<Rightarrow> (None, fs(path \<mapsto> d2))
                     | (st, d2) \<Rightarrow> (Some (Storage st), fs(path \<mapsto> d2)))
                | (st, d1) \<Rightarrow> (Some (Storage st), fs(path \<mapsto> d1)))))"

section \<open>Candidates and the validity rule\<close>

record Candidate =
  matches :: int
  first_match :: int
  second_match :: int

definition new_Candidate :: Candidate where
  "new_Candidate = \<lparr> matches = 0, first_match = 0, second_match = 0 \<rparr>"

text \<open>
  \<^verbatim>\<open>HmSearchImpl::valid_candidate\<close>. \<^verbatim>\<open>_max_error & 1\<close> tests the lowest bit of the
  two's complement of the integer, which is its parity.
\<close>

definition valid_candidate :: "HmSearchImpl \<Rightarrow> Candidate \<Rightarrow> bool" where
  "valid_candidate h candidate =
     (if max_error h AND 1 \<noteq> 0 then
        (if matches candidate < 3 then
           (if matches candidate = 1 \<or> (first_match candidate \<noteq> 0 \<and> second_match candidate \<noteq> 0)
            then False else True)
         else True)
      else
        (if matches candidate < 2 then
           (if first_match candidate \<noteq> 0 then False else True)
         else True))"


section \<open>The key codec\<close>

text \<open>
  \<^verbatim>\<open>operator[]\<close> of a \<^verbatim>\<open>basic_string\<close>: the position \<^verbatim>\<open>size()\<close> reads the terminator,
  which is 0; a position beyond it has no defined value.
\<close>

definition byte_at :: "bytes \<Rightarrow> int \<Rightarrow> 8 word option" where
  "byte_at s i =
     (if 0 \<le> i \<and> i < int (length s) then Some (s ! nat i)
      else if i = int (length s) then Some 0
      else None)"

text \<open>
  \<^verbatim>\<open>x << n\<close> on \<^verbatim>\<open>int\<close>: defined for a count from 0 to 31 and a non-negative \<open>x\<close> whose
  shifted value fits.
\<close>

definition shl :: "int \<Rightarrow> int \<Rightarrow> int option" where
  "shl x n =
     (if 0 \<le> n \<and> n < 32 \<and> 0 \<le> x \<and> x * 2 ^ nat n < 2 ^ 31 then Some (x * 2 ^ nat n)
      else None)"

text \<open>
  The loop of \<^verbatim>\<open>get_partition_key\<close> over the bytes of the key, with its state
  \<open>bits_left\<close> and \<open>hash_bit\<close>; the first argument counts the iterations left.
\<close>

fun partition_key_loop :: "hash_string \<Rightarrow> nat \<Rightarrow> int \<Rightarrow> int \<Rightarrow> bytes option" where
  "partition_key_loop hash 0 bits_left hash_bit = Some []"
| "partition_key_loop hash (Suc n) bits_left hash_bit =
     (let byte = hash_bit sdiv 8;
          bit = hash_bit smod 8;
          bits = (if 8 - bit > bits_left then bits_left else 8 - bit)
      in do {
           b \<leftarrow> byte_at hash byte;
           m1 \<leftarrow> shl 1 bits;
           m \<leftarrow> shl (m1 - 1) (8 - bit - bits);
           rest \<leftarrow> partition_key_loop hash n (bits_left - bits) (hash_bit + bits);
           Some ((b AND word_of_int m) # rest)
         })"

text \<open>
  \<^verbatim>\<open>HmSearchImpl::get_partition_key\<close>: the key written to the caller's buffer of
  \<^verbatim>\<open>_partition_bytes + 2\<close> bytes, and the returned \<open>psize\<close>. \<^verbatim>\<open>key[1] = partition\<close>
  keeps the low eight bits of the partition number.
\<close>

definition get_partition_key :: "HmSearchImpl \<Rightarrow> hash_string \<Rightarrow> int \<Rightarrow> (bytes \<times> int) option" where
  "get_partition_key h hash part =
     (let psize0 = hash_bits h - part * partition_bits h;
          psize = (if psize0 > partition_bits h then partition_bits h else psize0)
      in do {
           ks \<leftarrow> partition_key_loop hash (nat (partition_bytes h)) psize
                   (part * partition_bits h);
           Some ([0x50, word_of_int part] @ ks, psize)
         })"

section \<open>Inserting\<close>

text \<open>
  \<^verbatim>\<open>HmSearchImpl::insert\<close>: one \<^verbatim>\<open>Put\<close> of the hash for each partition, in increasing
  order. A failed \<^verbatim>\<open>Put\<close> returns at once and keeps the writes made before it.
\<close>

fun insert_loop :: "HmSearchImpl \<Rightarrow> hash_string \<Rightarrow> int list \<Rightarrow> DB \<Rightarrow> error option \<times> DB" where
  "insert_loop h hash [] d = (None, d)"
| "insert_loop h hash (i # rest) d =
     (case get_partition_key h hash i of
        None \<Rightarrow> (Some Undefined, d)
      | Some (key, psize) \<Rightarrow>
          (case Put d key hash of
             (OK, d') \<Rightarrow> insert_loop h hash rest d'
           | (st, d') \<Rightarrow> (Some (Storage st), d')))"

definition insert_hash :: "HmSearchImpl \<Rightarrow> hash_string \<Rightarrow> error option \<times> HmSearchImpl" where
  "insert_hash h hash =
     (if int (length hash) \<noteq> hash_bytes h then (Some InvalidHashLength, h)
      else (case db h of
              None \<Rightarrow> (Some Closed, h)
            | Some d \<Rightarrow>
                (case insert_loop h hash (map int [0..<nat (partitions h)]) d of
                   (r, d') \<Rightarrow> (r, h\<lparr>db := Some d'\<rparr>))))"

definition close :: "HmSearchImpl \<Rightarrow> error option \<times> HmSearchImpl" where
  "close h = (None, h\<lparr>db := None\<rparr>)"

section \<open>Looking up\<close>

subsection \<open>The candidate map\<close>

text \<open>
  \<^verbatim>\<open>std::map<hash_string, Candidate>\<close>: an association list kept in the order of the
  keys, which is the order the map is iterated in. Strings of bytes compare
  lexicographically, the bytes as unsigned numbers.
\<close>

type_synonym CandidateMap = "(hash_string \<times> Candidate) list"

fun hash_less :: "hash_string \<Rightarrow> hash_string \<Rightarrow> bool" where
  "hash_less [] [] = False"
| "hash_less [] (y # ys) = True"
| "hash_less (x # xs) [] = False"
| "hash_less (x # xs) (y # ys) = (x < y \<or> (x = y \<and> hash_less xs ys))"

text \<open>
  \<^verbatim>\<open>Candidate& cand = candidates[hash]\<close> followed by an update of \<open>cand\<close>: a missing
  entry is created with the default candidate first.
\<close>

fun update_candidate ::
  "hash_string \<Rightarrow> (Candidate \<Rightarrow> Candidate) \<Rightarrow> CandidateMap \<Rightarrow> CandidateMap" where
  "update_candidate hash f [] = [(hash, f new_Candidate)]"
| "update_candidate hash f ((k, c) # rest) =
     (if hash = k then (k, f c) # rest
      else if hash_less hash k then (hash, f new_Candidate) # (k, c) # rest
      else (k, c) # update_candidate hash f rest)"

definition note_match :: "int \<Rightarrow> Candidate \<Rightarrow> Candidate" where
  "note_match match cand =
     (let c1 = cand\<lparr>matches := matches cand + 1\<rparr>
      in if matches c1 = 1 then c1\<lparr>first_match := match\<rparr>
         else if matches c1 = 2 then c1\<lparr>second_match := match\<rparr>
         else c1)"

text \<open>
  \<^verbatim>\<open>HmSearchImpl::add_hash_candidates\<close>, the last argument being the loop variable \<open>n\<close>.
  Each round reads \<^verbatim>\<open>_hash_bytes\<close> bytes at offset \<open>n\<close> of the value. The value of a
  \<^verbatim>\<open>std::string\<close> is followed by its terminator, so a read may reach one byte beyond the
  value; a longer read is undefined. With \<^verbatim>\<open>_hash_bytes\<close> not positive the loop has no
  defined result either.
\<close>

function add_hash_candidates ::
  "HmSearchImpl \<Rightarrow> CandidateMap \<Rightarrow> int \<Rightarrow> bytes \<Rightarrow> nat \<Rightarrow> CandidateMap option" where
  "add_hash_candidates h candidates match hashes n =
     (if n < length hashes then
        (if hash_bytes h \<le> 0 \<or> n + nat (hash_bytes h) > length hashes + 1 then None
         else add_hash_candidates h
                (update_candidate (take (nat (hash_bytes h)) (drop n (hashes @ [0])))
                   (note_match match) candidates)
                match hashes (n + nat (hash_bytes h)))
      else Some candidates)"
  by pat_completeness auto
termination
  by (relation "measure (\<lambda>(h, c, m, hashes, n). length hashes - n)") auto

declare add_hash_candidates.simps [simp del]

subsection \<open>Candidate generation\<close>

text \<open>
  The inner loop of \<^verbatim>\<open>get_candidates\<close>: one probe for each of the \<open>bits\<close> bits of the
  partition, with that bit of the key flipped. The source flips the bit back after the
  probe, so every round starts from the same key.
\<close>

fun variants_loop ::
  "HmSearchImpl \<Rightarrow> DB \<Rightarrow> bytes \<Rightarrow> int \<Rightarrow> int \<Rightarrow> nat \<Rightarrow> CandidateMap \<Rightarrow> CandidateMap option" where
  "variants_loop h d key pbyte pbit 0 candidates = Some candidates"
| "variants_loop h d key pbyte pbit (Suc bits) candidates =
     (let idx = pbit sdiv 8 - pbyte + 2
      in do {
           m \<leftarrow> shl 1 (7 - pbit smod 8);
           key1 \<leftarrow> (if 0 \<le> idx \<and> idx < int (length key)
                    then Some (key[nat idx := key ! nat idx XOR word_of_int m])
                    else None);
           c1 \<leftarrow> (case Get d key1 of
                    (OK, hashes) \<Rightarrow> add_hash_candidates h candidates 1 hashes 0
                  | (st, hashes) \<Rightarrow> Some candidates);
           variants_loop h d key pbyte (pbit + 1) bits c1
         })"

fun get_candidates_loop ::
  "HmSearchImpl \<Rightarrow> DB \<Rightarrow> hash_string \<Rightarrow> int list \<Rightarrow> CandidateMap \<Rightarrow> CandidateMap option" where
  "get_candidates_loop h d query [] candidates = Some candidates"
| "get_candidates_loop h d query (i # rest) candidates =
     do {
       (key, bits) \<leftarrow> get_partition_key h query i;
       c0 \<leftarrow> (case Get d key of
                (OK, hashes) \<Rightarrow> add_hash_candidates h candidates 0 hashes 0
              | (st, hashes) \<Rightarrow> Some candidates);
       c1 \<leftarrow> variants_loop h d key ((i * partition_bits h) sdiv 8) (i * partition_bits h)
               (nat bits) c0;
       get_candidates_loop h d query rest c1
     }"

definition get_candidates :: "HmSearchImpl \<Rightarrow> DB \<Rightarrow> hash_string \<Rightarrow> CandidateMap option" where
  "get_candidates h d query =
     get_candidates_loop h d query (map int [0..<nat (partitions h)]) []"

subsection \<open>Hamming distance\<close>

definition one_bits :: "int list" where
  "one_bits =
    [0, 1, 1, 2, 1, 2, 2, 3, 1, 2, 2, 3, 2, 3, 3, 4,
     1, 2, 2, 3, 2, 3, 3, 4, 2, 3, 3, 4, 3, 4, 4, 5,
     1, 2, 2, 3, 2, 3, 3, 4, 2, 3, 3, 4, 3, 4, 4, 5,
     2, 3, 3, 4, 3, 4, 4, 5, 3, 4, 4, 5, 4, 5, 5, 6,
     1, 2, 2, 3, 2, 3, 3, 4, 2, 3, 3, 4, 3, 4, 4, 5,
     2, 3, 3, 4, 3, 4, 4, 5, 3, 4, 4, 5, 4, 5, 5, 6,
     2, 3, 3, 4, 3, 4, 4, 5, 3, 4, 4, 5, 4, 5, 5, 6,
     3, 4, 4, 5, 4, 5, 5, 6, 4, 5, 5, 6, 5, 6, 6, 7,
     1, 2, 2, 3, 2, 3, 3, 4, 2, 3, 3, 4, 3, 4, 4, 5,
     2, 3, 3, 4, 3, 4, 4, 5, 3, 4, 4, 5, 4, 5, 5, 6,
     2, 3, 3, 4, 3, 4, 4, 5, 3, 4, 4, 5, 4, 5, 5, 6,
     3, 4, 4, 5, 4, 5, 5, 6, 4, 5, 5, 6, 5, 6, 6, 7,
     2, 3, 3, 4, 3, 4, 4, 5, 3, 4, 4, 5, 4, 5, 5, 6,
     3, 4, 4, 5, 4, 5, 5, 6, 4, 5, 5, 6, 5, 6, 6, 7,
     3, 4, 4, 5, 4, 5, 5, 6, 4, 5, 5, 6, 5, 6, 6, 7,
     4, 5, 5, 6, 5, 6, 6, 7, 5, 6, 6, 7, 6, 7, 7, 8]"

text \<open>
  \<^verbatim>\<open>HmSearchImpl::hamming_distance\<close>: the loop runs over the positions of the query and
  reads the hash at the same position.
\<close>

fun hamming_loop :: "hash_string \<Rightarrow> hash_string \<Rightarrow> nat list \<Rightarrow> int \<Rightarrow> int option" where
  "hamming_loop query hash [] distance = Some distance"
| "hamming_loop query hash (i # rest) distance =
     do {
       b \<leftarrow> byte_at hash (int i);
       hamming_loop query hash rest (distance + one_bits ! unat (query ! i XOR b))
     }"

definition hamming_distance :: "hash_string \<Rightarrow> hash_string \<Rightarrow> int option" where
  "hamming_distance query hash = hamming_loop query hash [0..<length query] 0"

subsection \<open>Lookup\<close>

text \<open>
  Modelled from the spec: the header \<^verbatim>\<open>hmsearch.h\<close>, which declares \<^verbatim>\<open>LookupResult\<close>
  and \<^verbatim>\<open>LookupResultList\<close>, is not among the sources. The spec has the result of a
  lookup as a list of pairs of a hash and its distance, and the code constructs a
  \<^verbatim>\<open>LookupResult\<close> from these two. \<^verbatim>\<open>HmSearchImpl::lookup\<close> appends to the list the
  caller passes in.
\<close>

type_synonym LookupResult = "hash_string \<times> int"

fun lookup_loop ::
  "HmSearchImpl \<Rightarrow> hash_string \<Rightarrow> int \<Rightarrow> CandidateMap \<Rightarrow> LookupResult list \<Rightarrow>
   LookupResult list option" where
  "lookup_loop h query reduced_error [] result = Some result"
| "lookup_loop h query reduced_error ((hash, cand) # rest) result =
     (if valid_candidate h cand then
        do {
          distance \<leftarrow> hamming_distance query hash;
          lookup_loop h query reduced_error rest
            (if distance \<le> max_error h \<and> (reduced_error < 0 \<or> distance \<le> reduced_error)
             then result @ [(hash, distance)] else result)
        }
      else lookup_loop h query reduced_error rest result)"

definition lookup ::
  "HmSearchImpl \<Rightarrow> hash_string \<Rightarrow> LookupResult list \<Rightarrow> int \<Rightarrow> error option \<times> LookupResult list" where
  "lookup h query result reduced_error =
     (if int (length query) \<noteq> hash_bytes h then (Some InvalidHashLength, result)
      else (case db h of
              None \<Rightarrow> (Some Closed, result)
            | Some d \<Rightarrow>
                (case get_candidates h d query of
                   None \<Rightarrow> (Some Undefined, result)
                 | Some candidates \<Rightarrow>
                     (case lookup_loop h query reduced_error candidates result of
                        None \<Rightarrow> (Some Undefined, result)
                      | Some result' \<Rightarrow> (None, result')))))"

section \<open>The hex codec\<close>

text \<open>
  \<^verbatim>\<open>strtoul(buf, &err, 16)\<close> of the C library, on the characters of \<open>buf\<close> before its
  terminator: white space (\<^verbatim>\<open>isspace\<close> of the C locale) is skipped, a sign and a prefix
  \<^verbatim>\<open>0x\<close> before a digit are accepted, then the longest run of hexadecimal digits is
  converted. The result is the value as an \<^verbatim>\<open>unsigned long\<close> of 64 bits (the largest
  value on overflow, negated after a minus sign) and the position \<open>err\<close> points to;
  without a digit nothing is converted and \<open>err\<close> is the start.
\<close>

definition isspace :: "char \<Rightarrow> bool" where
  "isspace c = (of_char c = (32::nat) \<or> (9 \<le> (of_char c :: nat) \<and> (of_char c :: nat) \<le> 13))"

definition hex_value :: "char \<Rightarrow> nat option" where
  "hex_value c =
     (let n = (of_char c :: nat)
      in if 48 \<le> n \<and> n \<le> 57 then Some (n - 48)
         else if 97 \<le> n \<and> n \<le> 102 then Some (n - 87)
         else if 65 \<le> n \<and> n \<le> 70 then Some (n - 55)
         else None)"

fun hex_digits :: "string \<Rightarrow> int \<Rightarrow> int \<times> nat" where
  "hex_digits [] acc = (acc, 0)"
| "hex_digits (c # cs) acc =
     (case hex_value c of
        None \<Rightarrow> (acc, 0)
      | Some v \<Rightarrow> (case hex_digits cs (16 * acc + int v) of (r, n) \<Rightarrow> (r, Suc n)))"

definition strtoul16 :: "string \<Rightarrow> 64 word \<times> nat" where
  "strtoul16 s =
     (let ws = length (takeWhile isspace s);
          s1 = drop ws s;
          neg = (s1 \<noteq> [] \<and> hd s1 = CHR ''-'');
          sl = (if s1 \<noteq> [] \<and> (hd s1 = CHR ''-'' \<or> hd s1 = CHR ''+'') then 1 else 0);
          s2 = drop sl s1;
          pl = (case s2 of
                  c0 # cx # c2 # cs \<Rightarrow>
                    if c0 = CHR ''0'' \<and> (cx = CHR ''x'' \<or> cx = CHR ''X'') \<and> hex_value c2 \<noteq> None
                    then 2 else 0
                | _ \<Rightarrow> 0)
      in case hex_digits (drop pl s2) 0 of
           (v, n) \<Rightarrow>
             if n = 0 then (0, 0)
             else (let w = (if v < 2 ^ 64 then word_of_int v else - 1)
                   in (if neg then - w else w, ws + sl + pl + n)))"

text \<open>
  One round of the loop of \<^verbatim>\<open>HmSearch::parse_hexhash\<close>: the two characters are copied
  to a buffer with a terminator, converted, and the round fails when \<open>err\<close> does not
  point to a terminator. The converted value is stored in a byte.
\<close>

definition parse_byte :: "string \<Rightarrow> nat \<Rightarrow> 8 word option" where
  "parse_byte hexhash i =
     (let buf = takeWhile (\<lambda>c. c \<noteq> CHR 0x00) [hexhash ! (i * 2), hexhash ! (i * 2 + 1)]
      in case strtoul16 buf of
           (v, err) \<Rightarrow> if err \<noteq> length buf then None else Some (ucast v))"

text \<open>
  \<^verbatim>\<open>HmSearch::parse_hexhash\<close>: \<open>len\<close> is half the length, rounded down; the first round
  that fails returns the empty hash.
\<close>

definition parse_hexhash :: "string \<Rightarrow> hash_string" where
  "parse_hexhash hexhash =
     (let len = length hexhash div 2
      in case those (map (parse_byte hexhash) [0..<len]) of
           None \<Rightarrow> []
         | Some hash \<Rightarrow> hash)"

text \<open>
  \<^verbatim>\<open>HmSearch::format_hexhash\<close>: \<^verbatim>\<open>sprintf("%02x")\<close> writes two lower-case digits and a
  terminator for each byte, and the buffer is returned up to its terminator. For the
  empty hash nothing is written to the buffer, and what is returned is not defined.
\<close>

definition hex_digit :: "nat \<Rightarrow> char" where
  "hex_digit n = ''0123456789abcdef'' ! n"

definition format_byte :: "8 word \<Rightarrow> string" where
  "format_byte b = [hex_digit (unat b div 16), hex_digit (unat b mod 16)]"

definition format_hexhash :: "hash_string \<Rightarrow> string option" where
  "format_hexhash hash = (if hash = [] then None else Some (concat (map format_byte hash)))"

section \<open>Notions of the specification\<close>

text \<open>A run of inserts, stopping at the first one that fails.\<close>

fun insert_all :: "HmSearchImpl \<Rightarrow> hash_string list \<Rightarrow> error option \<times> HmSearchImpl" where
  "insert_all h [] = (None, h)"
| "insert_all h (x # xs) =
     (case insert_hash h x of
        (None, h') \<Rightarrow> insert_all h' xs
      | (Some e, h') \<Rightarrow> (Some e, h'))"

text \<open>The keys of the slots of a hash, one for each partition.\<close>

definition partition_keys :: "HmSearchImpl \<Rightarrow> hash_string \<Rightarrow> bytes option list" where
  "partition_keys h hash =
     map (\<lambda>i. map_option fst (get_partition_key h hash i)) (map int [0..<nat (partitions h)])"

text \<open>
  The Hamming distance of two byte strings: the number of bits set in the exclusive or
  of the bytes at the same position.
\<close>

definition popcount :: "8 word \<Rightarrow> nat" where
  "popcount w = length (filter (bit w) [0..<8])"

definition hamming :: "hash_string \<Rightarrow> hash_string \<Rightarrow> int" where
  "hamming q x = int (sum_list (map (\<lambda>(a, b). popcount (a XOR b)) (zip q x)))"

text \<open>
  The pairs of characters that are read as a byte: anything after a terminator, a digit
  followed by a digit or by a terminator, and white space or a sign followed by a digit.
\<close>

definition is_sign :: "char \<Rightarrow> bool" where
  "is_sign c = (c = CHR ''+'' \<or> c = CHR ''-'')"

definition pair_accepted :: "char \<Rightarrow> char \<Rightarrow> bool" where
  "pair_accepted c0 c1 =
     (c0 = CHR 0x00 \<or>
      (hex_value c0 \<noteq> None \<and> (hex_value c1 \<noteq> None \<or> c1 = CHR 0x00)) \<or>
      ((isspace c0 \<or> is_sign c0) \<and> hex_value c1 \<noteq> None))"

text \<open>All keys of a candidate map have \<open>n\<close> bytes.\<close>

definition keys_ok :: "nat \<Rightarrow> CandidateMap \<Rightarrow> bool" where
  "keys_ok n cs = (\<forall>(k, c)\<in>set cs. length k = n)"

text \<open>Bit \<open>j\<close> of a hash, the bits numbered from the most significant bit of byte 0.\<close>

definition hash_bit_at :: "hash_string \<Rightarrow> nat \<Rightarrow> bool" where
  "hash_bit_at x j = (j div 8 < length x \<and> bit (x ! (j div 8)) (7 - j mod 8))"

section \<open>Properties\<close>

subsection \<open>The validity rule\<close>

text \<open>
  Claim C3. For a candidate that was observed at least once (\<open>matches \<ge> 1\<close>), the rule
  accepts it, when the maximum error is odd, exactly if it has three or more matches, or
  two matches of which at least one is of tier 0; and when the maximum error is even,
  exactly if it has two or more matches, or one match of tier 0.
\<close>

theorem valid_candidate_rule:
  "1 \<le> matches c \<Longrightarrow>
   valid_candidate h c \<longleftrightarrow>
     (if odd (max_error h)
      then matches c \<ge> 3 \<or> (matches c = 2 \<and> (first_match c = 0 \<or> second_match c = 0))
      else matches c \<ge> 2 \<or> (matches c = 1 \<and> first_match c = 0))"
  by (auto simp: valid_candidate_def and_one_eq)

theorem valid_candidate_rule_witness:
  "1 \<le> matches \<lparr>matches = 2, first_match = 1, second_match = 0\<rparr> \<and>
   valid_candidate (new_HmSearchImpl None 16 3) \<lparr>matches = 2, first_match = 1, second_match = 0\<rparr> \<and>
   odd (max_error (new_HmSearchImpl None 16 3))"
proof -
  have m: "max_error (new_HmSearchImpl None 16 3) = 3" by code_simp
  show ?thesis
    using valid_candidate_rule [of "\<lparr>matches = 2, first_match = 1, second_match = 0\<rparr>"
        "new_HmSearchImpl None 16 3"]
    by (simp add: m)
qed

subsection \<open>Validation of the parameters\<close>

lemma and_7_eq_0_iff: "(w::32 word) AND 7 = 0 \<longleftrightarrow> unat w mod 8 = 0"
proof -
  have "w AND 7 = take_bit 3 w"
    using take_bit_eq_mask [of 3 w] by (simp add: mask_eq_exp_minus_1)
  moreover have "unat (take_bit 3 w) = unat w mod 8"
    by (simp add: unsigned_take_bit_eq take_bit_eq_mod unat_mod)
  ultimately show ?thesis
    by (metis unat_eq_zero)
qed

text \<open>
  Claim C7. \<open>init\<close> fails with \<open>InvalidHashBits\<close> exactly when the number of hash bits is 0
  or no multiple of 8; for a valid number of hash bits it fails with \<open>InvalidMaxError\<close>
  exactly when the maximum error is 0, at least the number of hash bits, or above 518; and
  when both are valid it goes on to create the store: on an existing path the creation is
  refused by the store, on a free path a store is created, and unless a write fails it
  holds the two settings records and \<open>init\<close> succeeds.
\<close>

theorem init_validation:
  "(fst (init fs wfail path hb me) = Some InvalidHashBits \<longleftrightarrow> unat hb = 0 \<or> unat hb mod 8 \<noteq> 0) \<and>
   (\<not> (unat hb = 0 \<or> unat hb mod 8 \<noteq> 0) \<longrightarrow>
      (fst (init fs wfail path hb me) = Some InvalidMaxError \<longleftrightarrow>
         unat me = 0 \<or> unat hb \<le> unat me \<or> 518 < unat me)) \<and>
   (\<not> (unat hb = 0 \<or> unat hb mod 8 \<noteq> 0) \<and> \<not> (unat me = 0 \<or> unat hb \<le> unat me \<or> 518 < unat me) \<longrightarrow>
      (case fs path of
         Some d \<Rightarrow> init fs wfail path hb me = (Some (Storage InvalidArgument), fs)
       | None \<Rightarrow>
           (\<exists>d. snd (init fs wfail path hb me) = fs(path \<mapsto> d)) \<and>
           (\<not> wfail key_hb \<and> \<not> wfail key_me \<longrightarrow>
              init fs wfail path hb me =
                (None, fs(path \<mapsto> \<lparr>table = [key_hb \<mapsto> decimal (unat hb), key_me \<mapsto> decimal (unat me)],
                                    write_fault = wfail\<rparr>)))))"
proof -
  have a: "hb = 0 \<longleftrightarrow> unat hb = 0" by (simp add: unat_eq_zero)
  have b: "me = 0 \<longleftrightarrow> unat me = 0" by (simp add: unat_eq_zero)
  have c: "hb \<le> me \<longleftrightarrow> unat hb \<le> unat me" by (simp add: word_le_nat_alt)
  have d: "518 < me \<longleftrightarrow> 518 < unat me" by (simp add: word_less_nat_alt)
  show ?thesis
    unfolding init_def a b c d and_7_eq_0_iff
    by (auto simp: Put_def split: option.splits)
qed

theorem init_validation_witness:
  "init Map.empty (\<lambda>k. False) ''index'' 8 2 =
     (None, [''index'' \<mapsto> \<lparr>table = [key_hb \<mapsto> [0x38], key_me \<mapsto> [0x32]], write_fault = (\<lambda>k. False)\<rparr>])"
  using init_validation [of Map.empty "\<lambda>k. False" "''index''" 8 2]
  by (simp add: decimal.simps)

subsection \<open>Arithmetic of the constructor\<close>

lemma sdiv_nonneg: "0 \<le> a \<Longrightarrow> 0 \<le> b \<Longrightarrow> a sdiv b = a div (b::int)"
  by (cases "a = 0"; cases "b = 0") (simp_all add: signed_divide_int_def)

lemma smod_nonneg: "0 \<le> a \<Longrightarrow> 0 \<le> b \<Longrightarrow> a smod b = a mod (b::int)"
  by (cases "a = 0"; cases "b = 0") (simp_all add: signed_modulo_int_def)

lemma neg_div_neg:
  assumes "0 < b"
  shows "- (- a div b) = (a + b - 1) div (b::int)"
proof -
  define q r where "q = (- a) div b" and "r = (- a) mod b"
  have e: "- a = b * q + r" by (simp add: q_def r_def)
  have r: "0 \<le> r" "r < b" using assms by (simp_all add: r_def)
  have "a + b - 1 = b * (- q) + (b - 1 - r)" using e by (simp add: algebra_simps)
  then have "(a + b - 1) div b = - q"
    using r by (intro int_div_pos_eq [where r = "b - 1 - r"]) simp_all
  then show ?thesis by (simp add: q_def)
qed

lemma ceiling_div: "0 < b \<Longrightarrow> \<lceil>real_of_int a / real_of_int b\<rceil> = (a + b - 1) div b"
  using neg_div_neg [of b a] by (simp add: ceiling_divide_eq_div)

lemma int32_id: "- (2 ^ 31) \<le> x \<Longrightarrow> x < 2 ^ 31 \<Longrightarrow> int32 x = x"
  by (simp add: int32_def sint_sbintrunc' signed_take_bit_int_eq_self)

lemma int32_nat: "n < 2 ^ 31 \<Longrightarrow> int32 (int n) = int n"
  by (rule int32_id) simp_all

lemma ceil_nat_le:
  fixes B P :: nat
  assumes "1 \<le> P"
  shows "(B + P - 1) div P \<le> B"
proof -
  have "B + P - 1 \<le> B * P + (P - 1)" using assms by (cases P) simp_all
  then have "(B + P - 1) div P \<le> (B * P + (P - 1)) div P" by (rule div_le_mono)
  also have "\<dots> = B" using assms by (intro div_nat_eqI) (simp_all add: mult.commute)
  finally show ?thesis .
qed

lemma new_HmSearchImpl_fields:
  fixes B k :: nat
  assumes B: "B + 7 < 2 ^ 31" and k: "k + 3 < 2 ^ 31"
    and P: "P = (k + 3) div 2" and b: "b = (B + P - 1) div P"
  shows "hash_bits (new_HmSearchImpl d (int B) (int k)) = int B"
    and "max_error (new_HmSearchImpl d (int B) (int k)) = int k"
    and "partitions (new_HmSearchImpl d (int B) (int k)) = int P"
    and "partition_bits (new_HmSearchImpl d (int B) (int k)) = int b"
    and "partition_bytes (new_HmSearchImpl d (int B) (int k)) = int ((b + 7) div 8 + 1)"
    and "hash_bytes (new_HmSearchImpl d (int B) (int k)) = int ((B + 7) div 8)"
proof -
  have P1: "1 \<le> P" unfolding P by simp
  have bB: "b \<le> B" unfolding b using P1 by (rule ceil_nat_le)
  have hb: "int32 (int B) = int B" using B by (intro int32_nat) simp
  have me: "int32 (int k) = int k" using k by (intro int32_nat) simp
  have "int32 (int k + 3) = int (k + 3)" using k int32_nat [of "k + 3"] by simp
  then have p: "int32 (int k + 3) sdiv 2 = int P"
    unfolding P by (simp add: sdiv_nonneg zdiv_int)
  have "\<lceil>real_of_int (int B) / real_of_int (int P)\<rceil> = (int B + int P - 1) div int P"
    using P1 by (intro ceiling_div) simp
  also have "int B + int P - 1 = int (B + P - 1)" using P1 by simp
  finally have "\<lceil>real_of_int (int B) / real_of_int (int P)\<rceil> = int b"
    unfolding b by (simp only: zdiv_int)
  moreover have "int32 (int b) = int b" using bB B by (intro int32_nat) simp
  ultimately have c: "ceil_quotient (int B) (int P) = int b"
    using P1 by (simp add: ceil_quotient_def)
  have "int32 (int b + 7) = int (b + 7)" using bB B int32_nat [of "b + 7"] by simp
  then have "int32 (int b + 7) sdiv 8 + 1 = int ((b + 7) div 8 + 1)"
    by (simp add: sdiv_nonneg zdiv_int)
  moreover have "int32 (int ((b + 7) div 8 + 1)) = int ((b + 7) div 8 + 1)"
    using bB B by (intro int32_nat) simp
  ultimately have pb: "int32 (int32 (int b + 7) sdiv 8 + 1) = int ((b + 7) div 8 + 1)"
    by (simp add: ac_simps)
  have "int32 (int B + 7) = int (B + 7)" using B int32_nat [of "B + 7"] by simp
  then have hby: "int32 (int B + 7) sdiv 8 = int ((B + 7) div 8)"
    by (simp add: sdiv_nonneg zdiv_int)
  show "hash_bits (new_HmSearchImpl d (int B) (int k)) = int B"
    and "max_error (new_HmSearchImpl d (int B) (int k)) = int k"
    by (simp_all add: new_HmSearchImpl_def Let_def hb me)
  show "partitions (new_HmSearchImpl d (int B) (int k)) = int P"
    by (simp add: new_HmSearchImpl_def Let_def hb me p)
  show "partition_bits (new_HmSearchImpl d (int B) (int k)) = int b"
    by (simp add: new_HmSearchImpl_def Let_def hb me p c)
  show "partition_bytes (new_HmSearchImpl d (int B) (int k)) = int ((b + 7) div 8 + 1)"
    using pb by (simp add: new_HmSearchImpl_def Let_def hb me p c)
  show "hash_bytes (new_HmSearchImpl d (int B) (int k)) = int ((B + 7) div 8)"
    using hby by (simp add: new_HmSearchImpl_def Let_def hb me)
qed

lemma hash_bytes_new:
  assumes "0 \<le> B" and "B + 7 < 2 ^ 31"
  shows "hash_bytes (new_HmSearchImpl d B k) = \<lceil>real_of_int B / 8\<rceil>"
proof -
  have "int32 B = B" "int32 (B + 7) = B + 7"
    using assms by (simp_all add: int32_id)
  then show ?thesis
    using assms ceiling_div [of 8 B] by (simp add: new_HmSearchImpl_def Let_def sdiv_nonneg)
qed

text \<open>
  Beyond the range of \<^verbatim>\<open>int\<close> the fields are not the ones of the formulas: \<open>init\<close>
  admits 4294967288 hash bits, which the handle has as \<open>- 8\<close>, with no hash bytes.
\<close>

lemma new_HmSearchImpl_wide:
  "hash_bits (new_HmSearchImpl None 4294967288 2) = - 8"
  "hash_bytes (new_HmSearchImpl None 4294967288 2) = 0"
  "hash_bytes (new_HmSearchImpl None 2147483647 2) = - 268435455"
  by code_simp+

subsection \<open>The guards of insert and lookup\<close>

text \<open>
  Claim C8, as the code has it. An insert or a lookup with a hash whose length in bytes
  differs from \<open>hash_bytes\<close> fails with \<open>InvalidHashLength\<close>; with a hash of the right
  length on a closed handle it fails with \<open>Closed\<close>. In both cases the handle and its
  store are returned as they were and the result list is returned as it was passed in.
  For a handle of \<open>B\<close> hash bits, \<open>hash_bytes\<close> is \<open>\<lceil>B / 8\<rceil>\<close> as long as \<open>B + 7\<close> is within
  the range of \<^verbatim>\<open>int\<close>.
\<close>

theorem guarded_operations:
  "(int (length x) \<noteq> hash_bytes h \<longrightarrow>
      insert_hash h x = (Some InvalidHashLength, h) \<and>
      lookup h x res m = (Some InvalidHashLength, res)) \<and>
   (int (length x) = hash_bytes h \<and> db h = None \<longrightarrow>
      insert_hash h x = (Some Closed, h) \<and>
      lookup h x res m = (Some Closed, res)) \<and>
   (0 \<le> B \<and> B + 7 < 2 ^ 31 \<longrightarrow>
      hash_bytes (new_HmSearchImpl d B k) = \<lceil>real_of_int B / 8\<rceil>)"
  by (simp add: insert_hash_def lookup_def hash_bytes_new)

theorem guarded_operations_witness:
  "insert_hash (new_HmSearchImpl None 8 2) [1, 2] = (Some InvalidHashLength, new_HmSearchImpl None 8 2) \<and>
   lookup (new_HmSearchImpl None 8 2) [1, 2] [([7], 1)] (- 1) = (Some InvalidHashLength, [([7], 1)]) \<and>
   insert_hash (new_HmSearchImpl None 8 2) [1] = (Some Closed, new_HmSearchImpl None 8 2) \<and>
   lookup (new_HmSearchImpl None 8 2) [1] [([7], 1)] (- 1) = (Some Closed, [([7], 1)]) \<and>
   hash_bytes (new_HmSearchImpl None 8 2) = 1"
proof -
  have a: "hash_bytes (new_HmSearchImpl None 8 2) = 1" by code_simp
  have b: "db (new_HmSearchImpl None 8 2) = None"
    by (simp add: new_HmSearchImpl_def Let_def)
  show ?thesis
    using guarded_operations [of "[1, 2]" "new_HmSearchImpl None 8 2" "[([7], 1)]" "- 1" 8 None 2]
      guarded_operations [of "[1]" "new_HmSearchImpl None 8 2" "[([7], 1)]" "- 1" 8 None 2]
    by (simp add: a b)
qed

text \<open>
  The claim as it is written says \<open>Closed\<close> for every closed handle. The length is checked
  first: a closed handle with a hash of the wrong length reports \<open>InvalidHashLength\<close>.
\<close>

theorem closed_handle_wrong_length:
  "db (snd (close (new_HmSearchImpl (Some \<lparr>table = Map.empty, write_fault = (\<lambda>k. False)\<rparr>) 8 2))) = None \<and>
   fst (insert_hash (snd (close (new_HmSearchImpl (Some \<lparr>table = Map.empty, write_fault = (\<lambda>k. False)\<rparr>) 8 2)))
          [1, 2]) = Some InvalidHashLength \<and>
   fst (lookup (snd (close (new_HmSearchImpl (Some \<lparr>table = Map.empty, write_fault = (\<lambda>k. False)\<rparr>) 8 2)))
          [1, 2] [] (- 1)) = Some InvalidHashLength"
proof -
  have a: "hash_bytes (new_HmSearchImpl (Some \<lparr>table = Map.empty, write_fault = (\<lambda>k. False)\<rparr>) 8 2) = 1"
    by code_simp
  show ?thesis
    by (simp add: close_def insert_hash_def lookup_def a)
qed

subsection \<open>What insert writes\<close>

lemma get_partition_key_db [simp]: "get_partition_key (h\<lparr>db := v\<rparr>) = get_partition_key h"
  by (rule ext)+ (simp add: get_partition_key_def Let_def)

lemma partition_keys_db [simp]: "partition_keys (h\<lparr>db := v\<rparr>) = partition_keys h"
  by (rule ext) (simp add: partition_keys_def)

lemma insert_loop_table:
  "insert_loop h x ps d = (None, d') \<Longrightarrow>
   table d' = (\<lambda>key. if Some key \<in> set (map (\<lambda>i. map_option fst (get_partition_key h x i)) ps)
                       then Some x else table d key)"
proof (induction ps arbitrary: d)
  case Nil
  then show ?case by simp
next
  case (Cons i ps)
  from Cons.prems obtain key psize where k: "get_partition_key h x i = Some (key, psize)"
    by (auto split: option.splits)
  from Cons.prems k have ok: "\<not> write_fault d key"
    by (auto simp: Put_def split: if_splits)
  with Cons.prems k have "insert_loop h x ps (d\<lparr>table := (table d)(key \<mapsto> x)\<rparr>) = (None, d')"
    by (simp add: Put_def)
  from Cons.IH [OF this] show ?case
    using k by (auto simp: fun_eq_iff)
qed

lemma insert_hash_table:
  assumes "insert_hash h x = (None, h')" and "db h = Some d"
  shows "\<exists>d'. h' = h\<lparr>db := Some d'\<rparr> \<and> int (length x) = hash_bytes h \<and>
           table d' = (\<lambda>key. if Some key \<in> set (partition_keys h x) then Some x else table d key)"
proof -
  from assms have len: "int (length x) = hash_bytes h"
    by (auto simp: insert_hash_def split: if_splits)
  obtain r d' where l: "insert_loop h x (map int [0..<nat (partitions h)]) d = (r, d')"
    by (cases "insert_loop h x (map int [0..<nat (partitions h)]) d")
  with assms len have r: "r = None" and h': "h' = h\<lparr>db := Some d'\<rparr>"
    by (simp_all add: insert_hash_def)
  from insert_loop_table [OF l [unfolded r]]
  have "table d' = (\<lambda>key. if Some key \<in> set (partition_keys h x) then Some x else table d key)"
    by (simp only: partition_keys_def)
  with h' len show ?thesis by blast
qed

lemma find_Some_in_set: "find P xs = Some v \<Longrightarrow> v \<in> set xs"
  by (induction xs) (auto split: if_splits)

lemma find_snoc:
  "find P (xs @ [x]) = (case find P xs of Some y \<Rightarrow> Some y | None \<Rightarrow> if P x then Some x else None)"
  by (induction xs) auto

lemma insert_all_table:
  "insert_all h xs = (None, h') \<Longrightarrow> db h = Some d \<Longrightarrow>
   \<exists>d'. h' = h\<lparr>db := Some d'\<rparr> \<and> (\<forall>x\<in>set xs. int (length x) = hash_bytes h) \<and>
     (\<forall>key. table d' key =
        (case find (\<lambda>x. Some key \<in> set (partition_keys h x)) (rev xs) of
           Some x \<Rightarrow> Some x | None \<Rightarrow> table d key))"
proof (induction xs arbitrary: h d)
  case Nil
  then show ?case by (cases h) auto
next
  case (Cons x xs)
  obtain r h1 where i: "insert_hash h x = (r, h1)" by (cases "insert_hash h x")
  with Cons.prems have r: "r = None" and rest: "insert_all h1 xs = (None, h')"
    by (auto split: option.splits)
  from insert_hash_table [OF i [unfolded r] Cons.prems(2)] obtain d1 where
    h1: "h1 = h\<lparr>db := Some d1\<rparr>" and len: "int (length x) = hash_bytes h" and
    t1: "table d1 = (\<lambda>key. if Some key \<in> set (partition_keys h x) then Some x else table d key)"
    by blast
  have "db h1 = Some d1" by (simp add: h1)
  from Cons.IH [OF rest this] obtain d' where
    h': "h' = h1\<lparr>db := Some d'\<rparr>" and lens: "\<forall>y\<in>set xs. int (length y) = hash_bytes h1" and
    t': "\<forall>key. table d' key =
        (case find (\<lambda>y. Some key \<in> set (partition_keys h1 y)) (rev xs) of
           Some y \<Rightarrow> Some y | None \<Rightarrow> table d1 key)"
    by blast
  have "h' = h\<lparr>db := Some d'\<rparr>" by (simp add: h' h1)
  moreover have "\<forall>y\<in>set (x # xs). int (length y) = hash_bytes h"
    using len lens by (simp add: h1)
  moreover have "\<forall>key. table d' key =
        (case find (\<lambda>y. Some key \<in> set (partition_keys h y)) (rev (x # xs)) of
           Some y \<Rightarrow> Some y | None \<Rightarrow> table d key)"
    using t' by (simp add: h1 t1 find_snoc split: option.splits)
  ultimately show ?case by blast
qed

text \<open>
  Claim C6. After a run of successful inserts every slot of the store holds the hash
  inserted last among those that have the key of the slot as one of their partition keys,
  and a slot no insert of the run has written is as it was before. So a slot that was
  absent before the run holds one inserted hash, of \<open>hash_bytes\<close> bytes, which is
  \<open>\<lceil>B / 8\<rceil>\<close>: never two hashes.
\<close>

theorem slot_holds_last_hash:
  assumes "insert_all h xs = (None, h')" and "db h = Some d"
  shows "\<exists>d'. db h' = Some d' \<and>
     (\<forall>key. table d' key =
        (case find (\<lambda>x. Some key \<in> set (partition_keys h x)) (rev xs) of
           Some x \<Rightarrow> Some x | None \<Rightarrow> table d key)) \<and>
     (\<forall>key v. table d' key = Some v \<longrightarrow> table d key = None \<longrightarrow>
        int (length v) = hash_bytes h \<and> v \<in> set xs)"
proof -
  from insert_all_table [OF assms] obtain d' where
    h': "h' = h\<lparr>db := Some d'\<rparr>" and lens: "\<forall>x\<in>set xs. int (length x) = hash_bytes h" and
    t': "\<forall>key. table d' key =
        (case find (\<lambda>x. Some key \<in> set (partition_keys h x)) (rev xs) of
           Some x \<Rightarrow> Some x | None \<Rightarrow> table d key)"
    by blast
  have "int (length v) = hash_bytes h \<and> v \<in> set xs"
    if "table d' key = Some v" "table d key = None" for key v
  proof -
    from that t' have "find (\<lambda>x. Some key \<in> set (partition_keys h x)) (rev xs) = Some v"
      by (auto split: option.splits)
    then have "v \<in> set xs"
      using find_Some_in_set by fastforce
    with lens show ?thesis by simp
  qed
  with h' t' show ?thesis by auto
qed

theorem slot_holds_last_hash_witness:
  "\<exists>d'. db (snd (insert_all (new_HmSearchImpl (Some \<lparr>table = Map.empty, write_fault = (\<lambda>k. False)\<rparr>) 8 2)
                   [[0xA5], [0xA4]])) = Some d' \<and>
        table d' [0x50, 0, 0xA0, 0] = Some [0xA4] \<and>
        table d' [0x50, 1, 0x05, 0] = Some [0xA5] \<and>
        table d' [0x50, 1, 0x04, 0] = Some [0xA4]"
proof -
  let ?d = "\<lparr>table = Map.empty, write_fault = (\<lambda>k. False)\<rparr>"
  let ?h = "new_HmSearchImpl (Some ?d) 8 2"
  let ?xs = "[[0xA5], [0xA4 :: 8 word]]"
  have "fst (insert_all ?h ?xs) = None" by code_simp
  then have a: "insert_all ?h ?xs = (None, snd (insert_all ?h ?xs))"
    by (metis prod.collapse)
  have b: "db ?h = Some ?d" by (simp add: new_HmSearchImpl_def Let_def)
  have f1: "find (\<lambda>x. Some [0x50, 0, 0xA0, 0] \<in> set (partition_keys ?h x)) (rev ?xs) = Some [0xA4]"
    by code_simp
  have f2: "find (\<lambda>x. Some [0x50, 1, 0x05, 0] \<in> set (partition_keys ?h x)) (rev ?xs) = Some [0xA5]"
    by code_simp
  have f3: "find (\<lambda>x. Some [0x50, 1, 0x04, 0] \<in> set (partition_keys ?h x)) (rev ?xs) = Some [0xA4]"
    by code_simp
  from slot_holds_last_hash [OF a b] obtain d' where
    "db (snd (insert_all ?h ?xs)) = Some d'"
    "\<forall>key. table d' key =
        (case find (\<lambda>x. Some key \<in> set (partition_keys ?h x)) (rev ?xs) of
           Some x \<Rightarrow> Some x | None \<Rightarrow> table ?d key)"
    by blast
  then show ?thesis
    using f1 f2 f3 by (intro exI [of _ d']) (simp del: rev.simps)
qed

text \<open>
  Claim C2 says that an insert appends to the slots. The code calls \<^verbatim>\<open>Put\<close>, which
  replaces the value. With 8 hash bits and a maximum error of 2, the hashes A5 and A4
  have the same key for partition 0; after inserting A5 and then A4 the slot of that key
  holds A4 alone, and no copy of A5.
\<close>

theorem insert_replaces_slot:
  "map_option fst (get_partition_key
      (new_HmSearchImpl (Some \<lparr>table = Map.empty, write_fault = (\<lambda>k. False)\<rparr>) 8 2) [0xA5] 0)
     = Some [0x50, 0, 0xA0, 0] \<and>
   fst (insert_all (new_HmSearchImpl (Some \<lparr>table = Map.empty, write_fault = (\<lambda>k. False)\<rparr>) 8 2)
          [[0xA5], [0xA4]]) = None \<and>
   map_option (\<lambda>d. table d [0x50, 0, 0xA0, 0])
     (db (snd (insert_all (new_HmSearchImpl (Some \<lparr>table = Map.empty, write_fault = (\<lambda>k. False)\<rparr>) 8 2)
                 [[0xA5], [0xA4]])))
     = Some (Some [0xA4])"
  by code_simp

subsection \<open>Recall\<close>

text \<open>
  Claim C1 says that a lookup returns every inserted hash within the maximum error of the
  query. In the scenario S5 (8 hash bits, maximum error 2, inserts of A5, A4 and E5) the
  two slots of A5 are taken over by A4 and by E5, and the lookup of A5 returns A4 and E5
  at distance 1, but not A5 itself at distance 0.
\<close>

theorem lookup_misses_inserted_hash:
  "fst (insert_all (new_HmSearchImpl (Some \<lparr>table = Map.empty, write_fault = (\<lambda>k. False)\<rparr>) 8 2)
          [[0xA5], [0xA4], [0xE5]]) = None \<and>
   lookup (snd (insert_all (new_HmSearchImpl (Some \<lparr>table = Map.empty, write_fault = (\<lambda>k. False)\<rparr>) 8 2)
                  [[0xA5], [0xA4], [0xE5]])) [0xA5] [] (- 1)
     = (None, [([0xA4], 1), ([0xE5], 1)])"
  by code_simp

subsection \<open>Soundness of the results\<close>

lemma one_bits_table: "\<forall>n\<in>{0..<256}. one_bits ! n = int (popcount (word_of_nat n))"
  by code_simp

lemma one_bits_popcount: "one_bits ! unat w = int (popcount w)"
proof -
  have "unat w < 256" using unsigned_less [of w] by simp
  with one_bits_table have "one_bits ! unat w = int (popcount (word_of_nat (unat w)))"
    by simp
  then show ?thesis by simp
qed

lemma keys_ok_update:
  "keys_ok n cs \<Longrightarrow> length k = n \<Longrightarrow> keys_ok n (update_candidate k f cs)"
  by (induction k f cs rule: update_candidate.induct) (auto simp: keys_ok_def)

lemma keys_ok_add:
  "add_hash_candidates h cs m hashes n = Some cs' \<Longrightarrow> keys_ok (nat (hash_bytes h)) cs \<Longrightarrow>
   keys_ok (nat (hash_bytes h)) cs'"
proof (induction h cs m hashes n rule: add_hash_candidates.induct)
  case (1 h cs m hashes n)
  show ?case
  proof (cases "n < length hashes")
    case False
    with "1.prems" show ?thesis by (simp add: add_hash_candidates.simps)
  next
    case True
    with "1.prems"(1) have g: "\<not> (hash_bytes h \<le> 0 \<or> n + nat (hash_bytes h) > length hashes + 1)"
      by (auto simp: add_hash_candidates.simps [of h cs m hashes n] split: if_splits)
    let ?k = "take (nat (hash_bytes h)) (drop n (hashes @ [0]))"
    have "length ?k = nat (hash_bytes h)" using g True by (auto simp: min_def)
    then have "keys_ok (nat (hash_bytes h)) (update_candidate ?k (note_match m) cs)"
      using "1.prems"(2) by (simp add: keys_ok_update)
    moreover have "add_hash_candidates h (update_candidate ?k (note_match m) cs) m hashes
        (n + nat (hash_bytes h)) = Some cs'"
      using "1.prems"(1) True g by (simp add: add_hash_candidates.simps [of h cs m hashes n])
    ultimately show ?thesis using "1.IH" [OF True g] by simp
  qed
qed

lemma keys_ok_probe:
  "(case Get d key of (OK, hashes) \<Rightarrow> add_hash_candidates h cs m hashes 0 | (st, hashes) \<Rightarrow> Some cs) = Some cs'
   \<Longrightarrow> keys_ok (nat (hash_bytes h)) cs \<Longrightarrow> keys_ok (nat (hash_bytes h)) cs'"
  by (auto split: prod.splits status.splits dest: keys_ok_add)

lemma keys_ok_variants:
  "variants_loop h d key pbyte pbit bits cs = Some cs' \<Longrightarrow> keys_ok (nat (hash_bytes h)) cs \<Longrightarrow>
   keys_ok (nat (hash_bytes h)) cs'"
proof (induction bits arbitrary: pbit cs)
  case 0
  then show ?case by simp
next
  case (Suc bits)
  from Suc.prems(1) obtain key1 c1 where
    p: "(case Get d key1 of (OK, hashes) \<Rightarrow> add_hash_candidates h cs 1 hashes 0
          | (st, hashes) \<Rightarrow> Some cs) = Some c1" and
    r: "variants_loop h d key pbyte (pbit + 1) bits c1 = Some cs'"
    by (auto simp: Let_def split: bind_splits if_splits)
  from keys_ok_probe [OF p Suc.prems(2)] Suc.IH [OF r] show ?case by simp
qed

lemma keys_ok_loop:
  "get_candidates_loop h d q ps cs = Some cs' \<Longrightarrow> keys_ok (nat (hash_bytes h)) cs \<Longrightarrow>
   keys_ok (nat (hash_bytes h)) cs'"
proof (induction ps arbitrary: cs)
  case Nil
  then show ?case by simp
next
  case (Cons i ps)
  from Cons.prems(1) obtain key bits c0 c1 where
    p: "(case Get d key of (OK, hashes) \<Rightarrow> add_hash_candidates h cs 0 hashes 0
          | (st, hashes) \<Rightarrow> Some cs) = Some c0" and
    v: "variants_loop h d key ((i * partition_bits h) sdiv 8) (i * partition_bits h) (nat bits) c0 = Some c1" and
    r: "get_candidates_loop h d q ps c1 = Some cs'"
    by (auto split: bind_splits prod.splits)
  from keys_ok_probe [OF p Cons.prems(2)] have "keys_ok (nat (hash_bytes h)) c0" .
  from keys_ok_variants [OF v this] Cons.IH [OF r] show ?case by simp
qed

lemma keys_ok_get_candidates:
  "get_candidates h d q = Some cs \<Longrightarrow> keys_ok (nat (hash_bytes h)) cs"
  unfolding get_candidates_def by (erule keys_ok_loop) (simp add: keys_ok_def)

lemma hamming_loop_sum:
  "\<forall>i\<in>set ixs. i < length x \<Longrightarrow>
   hamming_loop q x ixs acc = Some (acc + (\<Sum>i\<leftarrow>ixs. int (popcount (q ! i XOR x ! i))))"
  by (induction ixs arbitrary: acc) (simp_all add: byte_at_def one_bits_popcount)

lemma hamming_distance_eq:
  assumes "length x = length q"
  shows "hamming_distance q x = Some (hamming q x)"
proof -
  have "map (\<lambda>(a, b). popcount (a XOR b)) (zip q x) =
        map (\<lambda>i. popcount (q ! i XOR x ! i)) [0..<length q]"
    using assms by (intro nth_equalityI) simp_all
  then have "hamming q x = (\<Sum>i\<leftarrow>[0..<length q]. int (popcount (q ! i XOR x ! i)))"
    by (simp add: hamming_def sum_list_of_nat [symmetric] comp_def)
  moreover have "hamming_distance q x =
      Some (0 + (\<Sum>i\<leftarrow>[0..<length q]. int (popcount (q ! i XOR x ! i))))"
    unfolding hamming_distance_def using assms by (intro hamming_loop_sum) simp
  ultimately show ?thesis by simp
qed

lemma lookup_loop_sound:
  "lookup_loop h q m cs res = Some res' \<Longrightarrow> keys_ok (length q) cs \<Longrightarrow>
   \<exists>new. res' = res @ new \<and>
     (\<forall>(x, d)\<in>set new. length x = length q \<and> d = hamming q x \<and> d \<le> max_error h \<and>
        (0 \<le> m \<longrightarrow> d \<le> m))"
proof (induction cs arbitrary: res)
  case Nil
  then show ?case by simp
next
  case (Cons kc cs)
  obtain k c where kc: "kc = (k, c)" by (cases kc)
  from Cons.prems(2) have len: "length k = length q" and ok: "keys_ok (length q) cs"
    by (simp_all add: keys_ok_def kc)
  show ?case
  proof (cases "valid_candidate h c")
    case False
    with Cons.prems(1) have "lookup_loop h q m cs res = Some res'" by (simp add: kc)
    from Cons.IH [OF this ok] show ?thesis .
  next
    case True
    let ?d = "hamming q k"
    let ?res1 = "if ?d \<le> max_error h \<and> (m < 0 \<or> ?d \<le> m) then res @ [(k, ?d)] else res"
    from Cons.prems(1) True have "lookup_loop h q m cs ?res1 = Some res'"
      by (simp add: kc hamming_distance_eq [OF len])
    from Cons.IH [OF this ok] obtain new where
      n: "res' = ?res1 @ new" and
      p: "\<forall>(x, d)\<in>set new. length x = length q \<and> d = hamming q x \<and> d \<le> max_error h \<and>
            (0 \<le> m \<longrightarrow> d \<le> m)"
      by blast
    show ?thesis
    proof (cases "?d \<le> max_error h \<and> (m < 0 \<or> ?d \<le> m)")
      case True
      with n have "res' = res @ ((k, ?d) # new)" by simp
      moreover have "\<forall>(x, d)\<in>set ((k, ?d) # new). length x = length q \<and> d = hamming q x \<and>
          d \<le> max_error h \<and> (0 \<le> m \<longrightarrow> d \<le> m)"
        using p True len by auto
      ultimately show ?thesis by blast
    next
      case False
      with n p show ?thesis by auto
    qed
  qed
qed

text \<open>
  Claim C4. Every pair of a hash and a distance that a successful lookup appends to the
  result list has the length of the query, its distance is the Hamming distance to the
  query (the number of bits set in the exclusive or of the bytes), the distance is at most
  the maximum error of the index, and at most the cap \<open>m\<close> of the caller when that is not
  negative.
\<close>

theorem lookup_sound:
  assumes "lookup h q res m = (None, res')"
  shows "\<exists>new. res' = res @ new \<and>
     (\<forall>(x, d)\<in>set new. length x = length q \<and> d = hamming q x \<and> d \<le> max_error h \<and>
        (0 \<le> m \<longrightarrow> d \<le> m))"
proof -
  from assms have len: "int (length q) = hash_bytes h"
    by (auto simp: lookup_def split: if_splits)
  with assms obtain d cs where "db h = Some d" and
    g: "get_candidates h d q = Some cs" and l: "lookup_loop h q m cs res = Some res'"
    by (auto simp: lookup_def split: option.splits)
  from keys_ok_get_candidates [OF g] len have "keys_ok (length q) cs"
    by (metis nat_int)
  from lookup_loop_sound [OF l this] show ?thesis .
qed

theorem lookup_sound_witness:
  "lookup (snd (insert_hash (new_HmSearchImpl (Some \<lparr>table = Map.empty, write_fault = (\<lambda>k. False)\<rparr>) 8 2)
                  [0xA5])) [0xA4] [] 1 = (None, [([0xA5], 1)]) \<and>
   hamming [0xA4] [0xA5] = 1"
proof -
  let ?h = "snd (insert_hash (new_HmSearchImpl (Some \<lparr>table = Map.empty, write_fault = (\<lambda>k. False)\<rparr>) 8 2)
                  [0xA5])"
  have e: "lookup ?h [0xA4] [] 1 = (None, [([0xA5], 1)])"
    by code_simp
  from lookup_sound [OF e] have "1 = hamming [0xA4] [0xA5]"
    by simp
  with e show ?thesis by simp
qed

subsection \<open>The hex codec\<close>

lemma hex_digit_props:
  "\<forall>n\<in>{0..<16}. hex_value (hex_digit n) = Some n \<and> \<not> isspace (hex_digit n) \<and>
     hex_digit n \<noteq> CHR ''-'' \<and> hex_digit n \<noteq> CHR ''+'' \<and> hex_digit n \<noteq> CHR 0x00"
  by code_simp

lemma hex_digit_not_nul: "n < 16 \<Longrightarrow> hex_digit n \<noteq> CHR 0x00"
  using hex_digit_props by simp

lemma strtoul16_two_digits:
  assumes "a < 16" "b < 16"
  shows "strtoul16 [hex_digit a, hex_digit b] = (word_of_nat (16 * a + b), 2)"
proof -
  from assms hex_digit_props have
    a: "hex_value (hex_digit a) = Some a" "\<not> isspace (hex_digit a)" "hex_digit a \<noteq> CHR ''-''"
       "hex_digit a \<noteq> CHR ''+''" and
    b: "hex_value (hex_digit b) = Some b"
    by simp_all
  have "int (16 * a + b) < 2 ^ 64" using assms by simp
  then show ?thesis
    using a b by (simp add: strtoul16_def Let_def)
qed

lemma format_byte_nth:
  "i < length x \<Longrightarrow>
   concat (map format_byte x) ! (i * 2) = hex_digit (unat (x ! i) div 16) \<and>
   concat (map format_byte x) ! (i * 2 + 1) = hex_digit (unat (x ! i) mod 16)"
proof (induction x arbitrary: i)
  case Nil
  then show ?case by simp
next
  case (Cons w x)
  show ?case
  proof (cases i)
    case 0
    then show ?thesis by (simp add: format_byte_def)
  next
    case (Suc j)
    with Cons.prems have "j < length x" by simp
    from Cons.IH [OF this] show ?thesis
      by (simp add: Suc format_byte_def)
  qed
qed

lemma length_format: "length (concat (map format_byte x)) = 2 * length x"
  by (induction x) (simp_all add: format_byte_def)

lemma parse_format_byte:
  assumes "i < length x"
  shows "parse_byte (concat (map format_byte x)) i = Some (x ! i)"
proof -
  let ?w = "x ! i"
  have lt: "unat ?w div 16 < 16" "unat ?w mod 16 < 16"
    using unsigned_less [of ?w, where 'a = nat] by simp_all
  have "ucast (word_of_nat (16 * (unat ?w div 16) + unat ?w mod 16) :: 64 word) = ?w"
    by (simp add: ucast_up_ucast_id is_up)
  then show ?thesis
    using format_byte_nth [OF assms] strtoul16_two_digits [OF lt] lt [THEN hex_digit_not_nul]
    by (simp add: parse_byte_def Let_def)
qed

lemma those_map_Some: "those (map Some xs) = Some xs"
  by (induction xs) simp_all

lemma hexhash_round_trip:
  assumes "x \<noteq> []"
  shows "\<exists>s. format_hexhash x = Some s \<and> parse_hexhash s = x"
proof -
  let ?s = "concat (map format_byte x)"
  have "map (parse_byte ?s) [0..<length x] = map Some x"
    by (intro nth_equalityI) (simp_all add: parse_format_byte)
  then have "parse_hexhash ?s = x"
    by (simp add: parse_hexhash_def length_format those_map_Some)
  with assms show ?thesis by (simp add: format_hexhash_def)
qed

text \<open>
  Claim C9 says that parsing the formatted hash gives the hash back, for every byte
  string. That holds for every hash that is not empty (\<open>hexhash_round_trip\<close>). For the
  empty hash \<^verbatim>\<open>format_hexhash\<close> returns a buffer it has not written to, not even the
  terminator: the result is not defined.
\<close>

theorem format_hexhash_empty: "format_hexhash [] = None"
  by (simp add: format_hexhash_def)

lemma those_None: "None \<in> set xs \<Longrightarrow> those xs = None"
  by (induction xs) (auto split: option.splits)

lemma those_length: "those xs = Some ys \<Longrightarrow> length ys = length xs"
  by (induction xs arbitrary: ys) (auto split: option.splits)

lemma those_all_Some: "None \<notin> set xs \<Longrightarrow> \<exists>ys. those xs = Some ys"
proof (induction xs)
  case Nil
  then show ?case by simp
next
  case (Cons a xs)
  then obtain y ys where "a = Some y" "those xs = Some ys" by (cases a) auto
  then show ?case by simp
qed

lemma hex_not_special:
  "hex_value (CHR 0x00) = None" "hex_value (CHR ''+'') = None" "hex_value (CHR ''-'') = None"
  "\<not> isspace (CHR 0x00)" "\<not> isspace (CHR ''+'')" "\<not> isspace (CHR ''-'')"
  by code_simp+

lemma isspace_not_hex: "isspace c \<Longrightarrow> hex_value c = None"
  by (auto simp: isspace_def hex_value_def Let_def)

lemma strtoul16_empty: "strtoul16 [] = (0, 0)"
  by (simp add: strtoul16_def)

lemma strtoul16_one:
  "snd (strtoul16 [c]) = 1 \<longleftrightarrow> hex_value c \<noteq> None"
  using hex_not_special isspace_not_hex [of c]
  by (auto simp: strtoul16_def Let_def split: option.splits prod.splits)

lemma strtoul16_two:
  "snd (strtoul16 [c0, c1]) = 2 \<longleftrightarrow>
     hex_value c1 \<noteq> None \<and> (hex_value c0 \<noteq> None \<or> isspace c0 \<or> is_sign c0)"
  using hex_not_special isspace_not_hex [of c0] isspace_not_hex [of c1]
  by (auto simp: strtoul16_def Let_def is_sign_def split: option.splits prod.splits)

lemma parse_byte_accepts:
  "parse_byte s j \<noteq> None \<longleftrightarrow> pair_accepted (s ! (j * 2)) (s ! (j * 2 + 1))"
proof -
  let ?c0 = "s ! (j * 2)" and ?c1 = "s ! (j * 2 + 1)"
  consider "?c0 = CHR 0x00" | "?c0 \<noteq> CHR 0x00" "?c1 = CHR 0x00"
    | "?c0 \<noteq> CHR 0x00" "?c1 \<noteq> CHR 0x00" by blast
  then show ?thesis
  proof cases
    case 1
    then show ?thesis
      by (simp add: parse_byte_def pair_accepted_def strtoul16_empty)
  next
    case 2
    with strtoul16_one [of ?c0] hex_not_special show ?thesis
      by (auto simp: parse_byte_def pair_accepted_def split: prod.splits)
  next
    case 3
    with strtoul16_two [of ?c0 ?c1] show ?thesis
      by (auto simp: parse_byte_def pair_accepted_def split: prod.splits)
  qed
qed

text \<open>
  Claim C10, as the code has it. The characters are read in pairs, and the last character
  of a string of odd length is not read. If some pair is not one of those that are read
  as a byte (two digits, or one of the forms \<^verbatim>\<open>strtoul\<close> takes as well: anything after a
  terminator, a digit before a terminator, white space or a sign before a digit), the
  result is the empty hash. Every pair that holds a character which is no hexadecimal
  digit, and is of none of these three forms, is such a pair.
\<close>

theorem parse_hexhash_rejects:
  assumes "j < length s div 2" and "\<not> pair_accepted (s ! (j * 2)) (s ! (j * 2 + 1))"
  shows "parse_hexhash s = []"
proof -
  from assms(2) have "parse_byte s j = None"
    using parse_byte_accepts [of s j] by simp
  with assms(1) have "None \<in> set (map (parse_byte s) [0..<length s div 2])"
    by (auto simp: image_iff intro!: bexI [of _ j])
  then show ?thesis
    by (simp add: parse_hexhash_def those_None del: set_map)
qed

theorem parse_hexhash_rejects_witness:
  "parse_hexhash ''a5fg'' = [] \<and> parse_hexhash ''1 '' = []"
proof -
  have a: "\<not> pair_accepted (''a5fg'' ! (1 * 2)) (''a5fg'' ! (1 * 2 + 1))" by code_simp
  have b: "\<not> pair_accepted (''1 '' ! (0 * 2)) (''1 '' ! (0 * 2 + 1))" by code_simp
  have "parse_hexhash ''a5fg'' = []" by (rule parse_hexhash_rejects [OF _ a]) simp
  moreover have "parse_hexhash ''1 '' = []" by (rule parse_hexhash_rejects [OF _ b]) simp
  ultimately show ?thesis by simp
qed

text \<open>
  The condition is exact: when every pair is one of those read as a byte, a byte is
  returned for each pair.
\<close>

lemma parse_hexhash_accepts:
  assumes "\<forall>j<length s div 2. pair_accepted (s ! (j * 2)) (s ! (j * 2 + 1))"
  shows "length (parse_hexhash s) = length s div 2"
proof -
  have "parse_byte s j \<noteq> None" if "j < length s div 2" for j
    using that assms parse_byte_accepts [of s j] by blast
  then have "None \<notin> set (map (parse_byte s) [0..<length s div 2])"
    by (fastforce simp: image_iff)
  from those_all_Some [OF this] obtain ys where
    ys: "those (map (parse_byte s) [0..<length s div 2]) = Some ys" by blast
  from those_length [OF ys] ys show ?thesis
    by (simp add: parse_hexhash_def)
qed

text \<open>
  The claim as it is written says that a string of odd length gives the empty hash. The
  code parses the pairs and drops the last character.
\<close>

theorem parse_hexhash_odd_length: "odd (length ''abc'') \<and> parse_hexhash ''abc'' = [0xAB]"
  by code_simp

text \<open>
  Pairs with a character that is no digit and that are rejected, although they hold white
  space or a sign: these characters count only before a digit.
\<close>

lemma parse_hexhash_strict:
  "parse_hexhash ''1 '' = []"
  "parse_hexhash ''g+'' = []"
  "parse_hexhash ''zz 1'' = []"
  "parse_hexhash ''0x'' = []"
  by code_simp+

text \<open>
  What \<^verbatim>\<open>strtoul\<close> accepts beyond two digits: white space or a sign before a digit,
  a digit before a terminator, and anything after a terminator.
\<close>

lemma parse_hexhash_lenient:
  "parse_hexhash '' 1'' = [1]"
  "parse_hexhash ''+1'' = [1]"
  "parse_hexhash ''-1'' = [0xFF]"
  "parse_hexhash [CHR ''a'', CHR 0x00] = [0x0A]"
  "parse_hexhash [CHR 0x00, CHR ''z''] = [0]"
  by code_simp+

subsection \<open>The key codec\<close>

lemma shl_one: "c \<le> 8 \<Longrightarrow> shl 1 (int c) = Some (2 ^ c)"
proof -
  assume "c \<le> 8"
  then have "(2::int) ^ c \<le> 2 ^ 8" by (intro power_increasing) simp_all
  with \<open>c \<le> 8\<close> show ?thesis by (simp add: shl_def)
qed

lemma shl_mask: 
  assumes "c \<le> 8" "sh \<le> 8"
  shows "shl (2 ^ c - 1) (int sh) = Some ((2 ^ c - 1) * 2 ^ sh)"
proof -
  have c: "(2::int) ^ c \<le> 2 ^ 8" using assms by (intro power_increasing) simp_all
  have s: "(2::int) ^ sh \<le> 2 ^ 8" using assms by (intro power_increasing) simp_all
  have "(2 ^ c - 1) * (2::int) ^ sh \<le> 2 ^ 8 * 2 ^ 8"
    using c s by (intro mult_mono) simp_all
  then show ?thesis using assms by (simp add: shl_def)
qed

lemma bit_mask_byte:
  "bit (word_of_int ((2 ^ c - 1) * 2 ^ sh) :: 8 word) q \<longleftrightarrow> q < 8 \<and> sh \<le> q \<and> q < sh + c"
proof -
  have "(2 ^ c - 1) * 2 ^ sh = (push_bit sh (mask c) :: int)"
    by (simp add: push_bit_eq_mult mask_eq_exp_minus_1)
  then show ?thesis
    by (auto simp: bit_word_of_int_iff bit_push_bit_iff bit_mask_iff)
qed

declare partition_key_loop.simps(2) [simp del]

lemma partition_key_loop_step:
  fixes s L :: nat
  assumes x: "s div 8 \<le> length x" and c: "c = min L (8 - s mod 8)" and sh: "sh = 8 - s mod 8 - c"
  shows "partition_key_loop x (Suc n) (int L) (int s) =
     map_option
       (Cons ((if s div 8 < length x then x ! (s div 8) else 0) AND
              word_of_int ((2 ^ c - 1) * 2 ^ sh)))
       (partition_key_loop x n (int (L - c)) (int (s + c)))"
proof -
  have byte: "int s sdiv 8 = int (s div 8)" by (simp add: sdiv_nonneg zdiv_int)
  have bit: "int s smod 8 = int (s mod 8)" by (simp add: smod_nonneg zmod_int)
  have bits: "(if 8 - int (s mod 8) > int L then int L else 8 - int (s mod 8)) = int c"
    unfolding c by (auto simp: min_def)
  have c8: "c \<le> 8" "sh \<le> 8" by (simp_all add: c sh)
  have shi: "8 - int (s mod 8) - int c = int sh"
    unfolding c sh by (auto simp: min_def)
  have at: "byte_at x (int (s div 8)) = Some (if s div 8 < length x then x ! (s div 8) else 0)"
    using x by (simp add: byte_at_def)
  have st: "int L - int c = int (L - c)" "int s + int c = int (s + c)"
    by (simp_all add: c)
  have "partition_key_loop x (Suc n) (int L) (int s) =
      byte_at x (int (s div 8)) \<bind> (\<lambda>b. shl 1 (int c) \<bind> (\<lambda>m1. shl (m1 - 1) (int sh) \<bind>
        (\<lambda>m. partition_key_loop x n (int (L - c)) (int (s + c)) \<bind>
           (\<lambda>rest. Some ((b AND word_of_int m) # rest)))))"
    by (simp only: partition_key_loop.simps Let_def byte bit bits shi st)
  also have "\<dots> = partition_key_loop x n (int (L - c)) (int (s + c)) \<bind>
      (\<lambda>rest. Some (((if s div 8 < length x then x ! (s div 8) else 0) AND
                      word_of_int ((2 ^ c - 1) * 2 ^ sh)) # rest))"
    by (simp only: at shl_one [OF c8(1)] shl_mask [OF c8] bind.bind_lunit)
  also have "\<dots> = map_option
       (Cons ((if s div 8 < length x then x ! (s div 8) else 0) AND
              word_of_int ((2 ^ c - 1) * 2 ^ sh)))
       (partition_key_loop x n (int (L - c)) (int (s + c)))"
    by (cases "partition_key_loop x n (int (L - c)) (int (s + c))") simp_all
  finally show ?thesis .
qed

lemma hash_bit_at_split:
  "r < 8 \<Longrightarrow> hash_bit_at x (8 * a + r) \<longleftrightarrow> a < length x \<and> bit (x ! a) (7 - r)"
  by (simp add: hash_bit_at_def)

lemma partition_key_loop_bits:
  fixes s L :: nat
  assumes "s + L \<le> 8 * length x"
  shows "\<exists>ks. partition_key_loop x n (int L) (int s) = Some ks \<and> length ks = n \<and>
           (\<forall>t<n. \<forall>r<8. bit (ks ! t) (7 - r) \<longleftrightarrow>
              s \<le> 8 * (s div 8 + t) + r \<and> 8 * (s div 8 + t) + r < s + L \<and>
              hash_bit_at x (8 * (s div 8 + t) + r))"
  using assms
proof (induction n arbitrary: s L)
  case 0
  then show ?case by simp
next
  case (Suc n)
  define a m where "a = s div 8" and "m = s mod 8"
  have s: "s = 8 * a + m" and m: "m < 8" by (simp_all add: a_def m_def)
  define c where "c = min L (8 - m)"
  define b0 where "b0 = (if a < length x then x ! a else 0)"
  define msk where "msk = (word_of_int ((2 ^ c - 1) * 2 ^ (8 - m - c)) :: 8 word)"
  define w where "w = b0 AND msk"
  have mb: "bit msk q \<longleftrightarrow> q < 8 \<and> 8 - m - c \<le> q \<and> q < 8 - m - c + c" for q
    unfolding msk_def by (rule bit_mask_byte)
  have a: "a \<le> length x" using Suc.prems s by simp
  have "(s + c) + (L - c) \<le> 8 * length x" using Suc.prems by (simp add: c_def)
  from Suc.IH [OF this] obtain rest where
    rest: "partition_key_loop x n (int (L - c)) (int (s + c)) = Some rest" and
    len: "length rest = n" and
    bits: "\<And>t r. t < n \<Longrightarrow> r < 8 \<Longrightarrow> bit (rest ! t) (7 - r) \<longleftrightarrow>
              s + c \<le> 8 * ((s + c) div 8 + t) + r \<and>
              8 * ((s + c) div 8 + t) + r < (s + c) + (L - c) \<and>
              hash_bit_at x (8 * ((s + c) div 8 + t) + r)"
    by blast
  have step: "partition_key_loop x (Suc n) (int L) (int s) = Some (w # rest)"
    using partition_key_loop_step [of s x c L "8 - m - c" n] a rest
    by (simp add: a_def [symmetric] m_def [symmetric] c_def [symmetric] b0_def w_def msk_def)
  have first: "bit w (7 - r) \<longleftrightarrow>
      s \<le> 8 * (s div 8 + 0) + r \<and> 8 * (s div 8 + 0) + r < s + L \<and>
      hash_bit_at x (8 * (s div 8 + 0) + r)" if r: "r < 8" for r
  proof -
    have "bit w (7 - r) \<longleftrightarrow> bit b0 (7 - r) \<and> (8 - m - c \<le> 7 - r \<and> 7 - r < 8 - m - c + c)"
      using r mb [of "7 - r"] by (auto simp: w_def bit_and_iff)
    also have "(8 - m - c \<le> 7 - r \<and> 7 - r < 8 - m - c + c) \<longleftrightarrow> m \<le> r \<and> r < m + c"
      using r m by (auto simp: c_def min_def)
    also have "m \<le> r \<and> r < m + c \<longleftrightarrow> s \<le> 8 * a + r \<and> 8 * a + r < s + L"
      using r m s by (auto simp: c_def min_def)
    also have "bit b0 (7 - r) \<longleftrightarrow> hash_bit_at x (8 * a + r)"
      using r by (simp add: hash_bit_at_split b0_def)
    finally show ?thesis by (auto simp: a_def)
  qed
  have later: "bit (rest ! t) (7 - r) \<longleftrightarrow>
      s \<le> 8 * (s div 8 + Suc t) + r \<and> 8 * (s div 8 + Suc t) + r < s + L \<and>
      hash_bit_at x (8 * (s div 8 + Suc t) + r)" if t: "t < n" and r: "r < 8" for t r
  proof (cases "8 - m \<le> L")
    case True
    then have c: "c = 8 - m" by (simp add: c_def)
    have "s + c = 8 * (a + 1)" using s m c by simp
    then have d: "(s + c) div 8 = a + 1" by simp
    have "(s + c) + (L - c) = s + L" using True c by simp
    with bits [OF t r] d show ?thesis
      using s m c by (auto simp: a_def [symmetric])
  next
    case False
    then have c: "c = L" by (simp add: c_def)
    have "\<not> bit (rest ! t) (7 - r)"
      using bits [OF t r] c by auto
    moreover have "\<not> 8 * (s div 8 + Suc t) + r < s + L"
      using False s m by (simp add: a_def [symmetric])
    ultimately show ?thesis by simp
  qed
  have "\<forall>t<Suc n. \<forall>r<8. bit ((w # rest) ! t) (7 - r) \<longleftrightarrow>
      s \<le> 8 * (s div 8 + t) + r \<and> 8 * (s div 8 + t) + r < s + L \<and>
      hash_bit_at x (8 * (s div 8 + t) + r)"
  proof (intro allI impI)
    fix t r :: nat
    assume "t < Suc n" "r < 8"
    then show "bit ((w # rest) ! t) (7 - r) \<longleftrightarrow>
      s \<le> 8 * (s div 8 + t) + r \<and> 8 * (s div 8 + t) + r < s + L \<and>
      hash_bit_at x (8 * (s div 8 + t) + r)"
      using first [of r] later [of "t - 1" r] by (cases t) simp_all
  qed
  with step len show ?case by simp
qed

text \<open>
  Claim C5, as the code has it, for \<open>B\<close> hash bits and a maximum error \<open>k\<close> with
  \<open>B + 7\<close> and \<open>k + 3\<close> within the range of \<^verbatim>\<open>int\<close>. With \<open>P = (k + 3) div 2\<close> partitions of
  \<open>b = \<lceil>B / P\<rceil>\<close> bits, for a hash of \<open>\<lceil>B / 8\<rceil>\<close> bytes and a partition \<open>i < P\<close> that
  fits in a byte (\<open>i < 256\<close>) and starts inside the hash (\<open>i * b \<le> B\<close>), the key has
  \<open>\<lceil>b / 8\<rceil> + 3\<close> bytes: byte 0 is \<open>P\<close> (0x50), byte 1 is \<open>i\<close>, and bit \<open>r\<close> (counted from
  the most significant bit) of data byte \<open>t\<close> is set exactly if the hash bit
  \<open>j = 8 * (i * b div 8 + t) + r\<close> is one of the \<open>psize = min b (B - i * b)\<close> bits from
  \<open>i * b\<close> on and is set in the hash. So every bit keeps its position within its byte,
  every other bit of the key is zero, and all \<open>psize\<close> bits have a place in the
  \<open>\<lceil>b / 8\<rceil> + 1\<close> data bytes. The function returns \<open>psize\<close>. The last data byte is
  part of the data: nothing keeps it zero.
\<close>

theorem partition_key_codec:
  fixes B k i :: nat
  assumes range: "B + 7 < 2 ^ 31" "k + 3 < 2 ^ 31"
    and len: "length x = (B + 7) div 8"
    and P: "P = (k + 3) div 2" and b: "b = (B + P - 1) div P"
    and i: "i < P" "i < 256" and start: "i * b \<le> B"
    and psize: "psize = min b (B - i * b)"
  shows "\<exists>key. get_partition_key (new_HmSearchImpl d (int B) (int k)) x (int i) = Some (key, int psize) \<and>
      length key = (b + 7) div 8 + 3 \<and> key ! 0 = 0x50 \<and> unat (key ! 1) = i \<and>
      (\<forall>t<(b + 7) div 8 + 1. \<forall>r<8. bit (key ! (t + 2)) (7 - r) \<longleftrightarrow>
         i * b \<le> 8 * (i * b div 8 + t) + r \<and> 8 * (i * b div 8 + t) + r < i * b + psize \<and>
         hash_bit_at x (8 * (i * b div 8 + t) + r)) \<and>
      i * b + psize \<le> 8 * (i * b div 8 + (b + 7) div 8 + 1)"
proof -
  let ?h = "new_HmSearchImpl d (int B) (int k)"
  note f = new_HmSearchImpl_fields [OF range P b, of d]
  have "i * b + psize \<le> B" using start by (simp add: psize)
  also have "B \<le> 8 * length x" unfolding len by presburger
  finally have "i * b + psize \<le> 8 * length x" .
  from partition_key_loop_bits [OF this, of "(b + 7) div 8 + 1"] obtain ks where
    ks: "partition_key_loop x ((b + 7) div 8 + 1) (int psize) (int (i * b)) = Some ks" and
    lks: "length ks = (b + 7) div 8 + 1" and
    bits: "\<forall>t<(b + 7) div 8 + 1. \<forall>r<8. bit (ks ! t) (7 - r) \<longleftrightarrow>
         i * b \<le> 8 * (i * b div 8 + t) + r \<and> 8 * (i * b div 8 + t) + r < i * b + psize \<and>
         hash_bit_at x (8 * (i * b div 8 + t) + r)"
    by blast
  have ps: "(if int B - int (i * b) > int b then int b else int B - int (i * b)) = int psize"
  proof -
    have "int B - int (i * b) = int (B - i * b)" using start by (simp add: of_nat_diff)
    then show ?thesis by (simp add: psize min_def)
  qed
  have n: "nat (int ((b + 7) div 8 + 1)) = (b + 7) div 8 + 1" by (rule nat_int)
  have m: "int i * int b = int (i * b)" by simp
  have key: "get_partition_key ?h x (int i) = Some ([0x50, word_of_int (int i)] @ ks, int psize)"
    unfolding get_partition_key_def Let_def f m ps n ks by simp
  have u: "unat (word_of_int (int i) :: 8 word) = i"
    using i(2) by (simp add: unsigned_of_nat take_bit_nat_eq_self)
  have cover: "i * b + psize \<le> 8 * (i * b div 8 + (b + 7) div 8 + 1)"
  proof -
    have "psize \<le> b" by (simp add: psize)
    moreover have "i * b \<le> 8 * (i * b div 8) + 7" by presburger
    moreover have "b \<le> 8 * ((b + 7) div 8)" by presburger
    ultimately show ?thesis by simp
  qed
  show ?thesis
    using key lks bits u cover by (intro exI [of _ "[0x50, word_of_int (int i)] @ ks"]) simp
qed

theorem partition_key_codec_witness:
  "\<exists>key. get_partition_key (new_HmSearchImpl None 16 3) [0x00, 0xF0] 1 = Some (key, 6) \<and>
         length key = 4 \<and> key ! 0 = 0x50 \<and> unat (key ! 1) = 1 \<and>
         (bit (key ! 3) 7 \<longleftrightarrow> hash_bit_at [0x00, 0xF0] 8)"
proof -
  have "\<exists>key. get_partition_key (new_HmSearchImpl None (int 16) (int 3)) [0x00, 0xF0] (int 1)
            = Some (key, int 6) \<and>
      length key = (6 + 7) div 8 + 3 \<and> key ! 0 = 0x50 \<and> unat (key ! 1) = 1 \<and>
      (\<forall>t<(6 + 7) div 8 + 1. \<forall>r<8. bit (key ! (t + 2)) (7 - r) \<longleftrightarrow>
         1 * 6 \<le> 8 * (1 * 6 div 8 + t) + r \<and> 8 * (1 * 6 div 8 + t) + r < 1 * 6 + 6 \<and>
         hash_bit_at [0x00, 0xF0] (8 * (1 * 6 div 8 + t) + r)) \<and>
      (1::nat) * 6 + 6 \<le> 8 * (1 * 6 div 8 + (6 + 7) div 8 + 1)"
    by (rule partition_key_codec [where P = 3]) simp_all
  then obtain key where
    k: "get_partition_key (new_HmSearchImpl None 16 3) [0x00, 0xF0] 1 = Some (key, 6)"
       "length key = 4" "key ! 0 = 0x50" "unat (key ! 1) = 1" and
    b: "\<forall>t<2. \<forall>r<8. bit (key ! (t + 2)) (7 - r) \<longleftrightarrow>
         6 \<le> 8 * t + r \<and> 8 * t + r < 12 \<and> hash_bit_at [0x00, 0xF0] (8 * t + r)"
    by auto
  from b have "bit (key ! (1 + 2)) (7 - 0) \<longleftrightarrow>
      6 \<le> 8 * 1 + (0::nat) \<and> 8 * 1 + 0 < (12::nat) \<and> hash_bit_at [0x00, 0xF0] (8 * 1 + 0)"
    by (intro b [rule_format]) simp_all
  then have "bit (key ! 3) 7 \<longleftrightarrow> hash_bit_at [0x00, 0xF0] 8" by (simp add: numeral_3_eq_3)
  with k show ?thesis by blast
qed

text \<open>
  The claim as it is written has the last byte of the key always zero. With 16 hash bits
  and a maximum error of 3 the partitions have 6 bits; partition 1 covers the hash bits
  6 to 11 and its last key byte holds the bits 8 to 11.
\<close>

theorem partition_key_last_byte:
  "get_partition_key (new_HmSearchImpl None 16 3) [0x00, 0xF0] 1 = Some ([0x50, 0x01, 0x00, 0xF0], 6) \<and>
   partition_bytes (new_HmSearchImpl None 16 3) = 2"
  by code_simp

text \<open>
  Outside the theorem: the partition number is stored in one byte, and \<open>init\<close> admits a
  maximum error up to 518, which gives up to 260 partitions; and a partition can start
  beyond the end of the hash, where \<open>psize\<close> is negative and the mask is computed with a
  shift by a negative count.
\<close>

lemma partition_number_truncated:
  "partitions (new_HmSearchImpl None 520 518) = 260 \<and>
   map_option (\<lambda>(key, psize). key ! 1) (get_partition_key (new_HmSearchImpl None 520 518) (replicate 65 0) 256)
     = Some 0"
  by code_simp

lemma partition_beyond_hash:
  "partitions (new_HmSearchImpl None 16 11) = 7 \<and> partition_bits (new_HmSearchImpl None 16 11) = 3 \<and>
   get_partition_key (new_HmSearchImpl None 16 11) [0xFF, 0xFF] 6 = None"
  by code_simp

end
